theory Spec2Isabelle
  imports Complex_Main "HOL-Library.Sublist" "HOL-Library.AList" "HOL-Library.Log_Nat"
    "HOL-Library.Code_Target_Nat"
begin

section \<open>Response analysis of rank\_llm: the embedding\<close>

text \<open>
  The development embeds \<^verbatim>\<open>ResponseAnalyzer\<close> of
  \<^verbatim>\<open>src/rank_llm/analysis/response_analysis_verbose.py\<close>:
  \<^verbatim>\<open>_validate_format\<close>, \<^verbatim>\<open>_get_num_passages\<close> and \<^verbatim>\<open>count_errors\<close>.

  Conventions of the embedding.
  \<^item> A Python \<^verbatim>\<open>str\<close> is the list of its code points, each a natural number; every
    code point is covered, lone surrogates included. The text of a literal of the source
    is written \<open>ascii ''...''\<close>.
  \<^item> A raised exception is the left summand of a sum type.
  \<^item> The interpreter's settings that the code depends on are a parameter \<open>E\<close>: the limit on
    the digits of a conversion from a string to an integer, and the behaviour of the
    standard output, which may refuse a line.
  \<^item> A Python \<^verbatim>\<open>float\<close> is the rational number it denotes, and every operation rounds to
    the nearest binary64 number, ties to even.
\<close>

subsection \<open>Exceptions\<close>

datatype error =
  IndexError | ValueError | ZeroDivisionError | TypeError | KeyError | UnicodeEncodeError
  | OSError

subsection \<open>Strings\<close>

type_synonym str = "nat list"

definition cp :: "char \<Rightarrow> nat" where
  "cp c = of_char c"

definition ascii :: "string \<Rightarrow> str" where
  "ascii s = map cp s"

subsection \<open>The character tables of the interpreter\<close>

text \<open>
  The decimal digits (\<^verbatim>\<open>str.isdecimal\<close>, the class \<^verbatim>\<open>\d\<close> of \<^verbatim>\<open>re\<close>, the digits \<^verbatim>\<open>int\<close>
  converts) come in runs of ten consecutive code points, from the digit zero to the digit
  nine. The list holds the code point of the zero of each run, for Unicode 14.0 as in
  CPython 3.11: 48 is the ASCII zero, 1632 the Arabic-Indic zero, and so on.
\<close>

definition decimal_zeros :: "nat list" where
  "decimal_zeros =
     [48, 1632, 1776, 1984, 2406, 2534, 2662, 2790, 2918, 3046, 3174, 3302, 3430, 3558,
      3664, 3792, 3872, 4160, 4240, 6112, 6160, 6470, 6608, 6784, 6800, 6992, 7088, 7232,
      7248, 42528, 43216, 43264, 43472, 43504, 43600, 44016, 65296, 66720, 68912, 69734,
      69872, 69942, 70096, 70384, 70736, 70864, 71248, 71360, 71472, 71904, 72016, 72784,
      73040, 73120, 92768, 92864, 93008, 120782, 120792, 120802, 120812, 120822, 123200,
      123632, 125264, 130032]"

text \<open>The value of a decimal digit, \<open>None\<close> for any other code point.\<close>

definition decimal :: "nat \<Rightarrow> nat option" where
  "decimal c = map_option (\<lambda>z. c - z) (find (\<lambda>z. z \<le> c \<and> c < z + 10) decimal_zeros)"

definition isdecimal :: "nat \<Rightarrow> bool" where
  "isdecimal c \<longleftrightarrow> decimal c \<noteq> None"

text \<open>
  \<^verbatim>\<open>str.isdigit\<close> holds for the decimal digits and for the code points of these ranges
  (superscripts, circled digits and the like), which \<^verbatim>\<open>int\<close> does not convert.
\<close>

definition other_digits :: "(nat \<times> nat) list" where
  "other_digits =
     [(178, 179), (185, 185), (4969, 4977), (6618, 6618), (8304, 8304), (8308, 8313),
      (8320, 8329), (9312, 9320), (9332, 9340), (9352, 9360), (9450, 9450), (9461, 9469),
      (9471, 9471), (10102, 10110), (10112, 10120), (10122, 10130), (68160, 68163),
      (69216, 69224), (69714, 69722), (127232, 127242)]"

definition isdigit :: "nat \<Rightarrow> bool" where
  "isdigit c \<longleftrightarrow> isdecimal c \<or> list_ex (\<lambda>(a, b). a \<le> c \<and> c \<le> b) other_digits"

text \<open>The white space that \<^verbatim>\<open>int\<close> strips at both ends of its argument.\<close>

definition int_spaces :: "nat list" where
  "int_spaces =
     [9, 10, 11, 12, 13, 32, 133, 160, 5760, 8192, 8193, 8194, 8195, 8196, 8197, 8198,
      8199, 8200, 8201, 8202, 8232, 8233, 8239, 8287, 12288]"

definition int_space :: "nat \<Rightarrow> bool" where
  "int_space c \<longleftrightarrow> c \<in> set int_spaces"

subsection \<open>The settings of the interpreter\<close>

text \<open>
  \<open>max_str_digits\<close> is \<^verbatim>\<open>sys.get_int_max_str_digits()\<close>: 0 for no limit, 4300 by default
  since CPython 3.11. \<open>stdout_write\<close> says what the standard output does with a line, given
  the lines it has taken so far: \<open>None\<close> when it takes the line, the exception otherwise.
\<close>

record env =
  max_str_digits :: nat
  stdout_write :: "str list \<Rightarrow> str \<Rightarrow> error option"

text \<open>
  A standard output encoded in UTF-8 refuses a line with a surrogate code point; with it
  and the default limit, the interpreter as it starts.
\<close>

definition utf8_stdout :: "str list \<Rightarrow> str \<Rightarrow> error option" where
  "utf8_stdout out line =
     (if list_ex (\<lambda>c. 55296 \<le> c \<and> c \<le> 57343) line then Some UnicodeEncodeError else None)"

definition cpython :: env where
  "cpython = \<lparr>max_str_digits = 4300, stdout_write = utf8_stdout\<rparr>"

subsection \<open>The built-ins used on strings\<close>

text \<open>\<^verbatim>\<open>s[i]\<close>: a negative index counts from the end, an index out of range raises.\<close>

definition str_index :: "str \<Rightarrow> int \<Rightarrow> error + nat" where
  "str_index s i =
     (if 0 \<le> i \<and> i < int (length s) then Inr (s ! nat i)
      else if i < 0 \<and> - int (length s) \<le> i then Inr (s ! nat (i + int (length s)))
      else Inl IndexError)"

text \<open>\<^verbatim>\<open>s[start:stop]\<close>: negative bounds count from the end, then both are clamped.\<close>

definition slice_bound :: "nat \<Rightarrow> int \<Rightarrow> nat" where
  "slice_bound n i = (let j = (if i < 0 then i + int n else i) in
     if j < 0 then 0 else if int n < j then n else nat j)"

definition str_slice :: "str \<Rightarrow> int \<Rightarrow> int \<Rightarrow> str" where
  "str_slice s start stop =
     take (slice_bound (length s) stop - slice_bound (length s) start)
       (drop (slice_bound (length s) start) s)"

text \<open>
  \<^verbatim>\<open>s.split(sep)\<close> for a non-empty separator: a scan from the left that cuts at every
  occurrence of the separator and resumes behind it. The second argument is the piece
  collected so far.
\<close>

function split_from :: "str \<Rightarrow> str \<Rightarrow> str \<Rightarrow> str list" where
  "split_from sep piece [] = [piece]"
| "split_from sep piece (c # cs) =
     (if sep \<noteq> [] \<and> prefix sep (c # cs)
      then piece # split_from sep [] (drop (length sep) (c # cs))
      else split_from sep (piece @ [c]) cs)"
  by pat_completeness auto
termination
  by (relation "measure (\<lambda>(sep, piece, s). length s)") auto

definition split :: "str \<Rightarrow> str \<Rightarrow> str list" where
  "split s sep = split_from sep [] s"

text \<open>
  \<^verbatim>\<open>int(s)\<close> on a string, base ten: white space is stripped at both ends, one sign may
  follow, and the rest is a non-empty run of decimal digits in which single underscores
  may stand between two digits. Anything else raises \<^verbatim>\<open>ValueError\<close> (\<open>None\<close> here), and
  so does a run of more digits than the limit, when there is one; underscores, the sign
  and the white space do not count, leading zeros do.
\<close>

definition strip :: "str \<Rightarrow> str" where
  "strip s = rev (dropWhile int_space (rev (dropWhile int_space s)))"

fun digits_ok :: "str \<Rightarrow> bool" where
  "digits_ok [] = False"
| "digits_ok [c] = isdecimal c"
| "digits_ok (c # d # cs) =
     (isdecimal c \<and> (if d = cp CHR ''_'' then digits_ok cs else digits_ok (d # cs)))"

definition within_limit :: "env \<Rightarrow> str \<Rightarrow> bool" where
  "within_limit E ds \<longleftrightarrow>
     max_str_digits E = 0 \<or> length (filter (\<lambda>c. c \<noteq> cp CHR ''_'') ds) \<le> max_str_digits E"

definition digit_val :: "nat \<Rightarrow> int" where
  "digit_val c = (case decimal c of Some d \<Rightarrow> int d | None \<Rightarrow> 0)"

definition decimal_value :: "str \<Rightarrow> int" where
  "decimal_value ds =
     foldl (\<lambda>a c. 10 * a + digit_val c) 0 (filter (\<lambda>c. c \<noteq> cp CHR ''_'') ds)"

definition digits_int :: "env \<Rightarrow> str \<Rightarrow> int option" where
  "digits_int E ds = (if digits_ok ds \<and> within_limit E ds then Some (decimal_value ds) else None)"

definition py_int :: "env \<Rightarrow> str \<Rightarrow> int option" where
  "py_int E s =
     (case strip s of
        c # r \<Rightarrow>
          if c = cp CHR ''-'' then map_option uminus (digits_int E r)
          else if c = cp CHR ''+'' then digits_int E r
          else digits_int E (c # r)
      | [] \<Rightarrow> None)"

text \<open>
  \<^verbatim>\<open>print(line)\<close> when the diagnostic mode is on: the standard output takes the line or
  the exception leaves the caller.
\<close>

definition emit :: "env \<Rightarrow> bool \<Rightarrow> str list \<Rightarrow> str \<Rightarrow> error + str list" where
  "emit E verbose out line =
     (if verbose
      then (case stdout_write E out line of Some e \<Rightarrow> Inl e | None \<Rightarrow> Inr (out @ [line]))
      else Inr out)"

subsection \<open>Floating point\<close>

text \<open>
  The integer nearest to a rational, a tie to the even one, and the position of the leading
  bit of a positive rational: \<open>2 powi ilog2 x \<le> x < 2 powi (ilog2 x + 1)\<close>.
\<close>

definition round_half_even :: "rat \<Rightarrow> int" where
  "round_half_even x =
     (let f = \<lfloor>x\<rfloor>; d = x - of_int f in
      if d < 1 / 2 then f else if 1 / 2 < d then f + 1
      else if even f then f else f + 1)"

definition ilog2 :: "rat \<Rightarrow> int" where
  "ilog2 x = (if 1 \<le> x then bitlen \<lfloor>x\<rfloor> - 1 else - bitlen (\<lceil>1 / x\<rceil> - 1))"

text \<open>
  The binary64 number nearest to a rational, ties to even: a significand of 53 bits, and
  multiples of \<open>2 powi - 1074\<close> below the normal range. The numbers this code computes are
  at most 100, far from the overflow threshold, which is not modelled.
\<close>

definition fl :: "rat \<Rightarrow> rat" where
  "fl x =
     (if x = 0 then 0
      else let e = max (ilog2 \<bar>x\<bar> - 52) (- 1074)
           in of_int (round_half_even (x / 2 powi e)) * 2 powi e)"

text \<open>
  \<^verbatim>\<open>round(x, 2)\<close> on a float: the decimal of two places nearest to the exact value of
  \<open>x\<close>, a tie to the even one, read back as a float.
\<close>

definition round2 :: "rat \<Rightarrow> rat" where
  "round2 x = fl (of_int (round_half_even (x * 100)) / 100)"

text \<open>
  \<^verbatim>\<open>round((c / n) * 100.0, 2)\<close> for integers \<open>c\<close> and \<open>n\<close>: the quotient of two integers
  is the float nearest to it, and so is the product by 100.
\<close>

definition percent :: "nat \<Rightarrow> nat \<Rightarrow> rat" where
  "percent c n = round2 (fl (fl (of_nat c / of_nat n) * 100))"

subsection \<open>\<^verbatim>\<open>_validate_format\<close>\<close>

fun validate_format :: "str \<Rightarrow> bool" where
  "validate_format [] = True"
| "validate_format (c # cs) =
     (if \<not> isdigit c \<and> c \<noteq> cp CHR ''['' \<and> c \<noteq> cp CHR '']'' \<and> c \<noteq> cp CHR ''>''
         \<and> c \<noteq> cp CHR '' ''
      then False else validate_format cs)"

subsection \<open>The body of the loop of \<^verbatim>\<open>count_errors\<close>\<close>

text \<open>The four keys of \<^verbatim>\<open>stats_dict\<close>, one of which each iteration increments.\<close>

datatype outcome = Ok | WrongFormat | Repetition | MissingDocuments

fun key_of :: "outcome \<Rightarrow> string" where
  "key_of Ok = ''ok''"
| "key_of WrongFormat = ''wrong_format''"
| "key_of Repetition = ''repetition''"
| "key_of MissingDocuments = ''missing_documents''"

text \<open>\<^verbatim>\<open>while not resp[begin].isdigit(): begin += 1\<close>\<close>

function find_begin :: "str \<Rightarrow> nat \<Rightarrow> error + nat" where
  "find_begin resp b =
     (case str_index resp (int b) of
        Inl e \<Rightarrow> Inl e
      | Inr c \<Rightarrow> if \<not> isdigit c then find_begin resp (b + 1) else Inr b)"
  by pat_completeness auto
termination
  by (relation "measure (\<lambda>(resp, b). length resp - b)")
     (auto simp: str_index_def split: if_splits)

text \<open>\<^verbatim>\<open>while not resp[len(resp) - end - 1].isdigit(): end += 1\<close>\<close>

function find_end :: "str \<Rightarrow> nat \<Rightarrow> error + nat" where
  "find_end resp e =
     (case str_index resp (int (length resp) - int e - 1) of
        Inl err \<Rightarrow> Inl err
      | Inr c \<Rightarrow> if \<not> isdigit c then find_end resp (e + 1) else Inr e)"
  by pat_completeness auto
termination
  by (relation "measure (\<lambda>(resp, e). 2 * length resp - e)")
     (auto simp: str_index_def split: if_splits)

text \<open>\<^verbatim>\<open>[int(rank) for rank in ranks]\<close>: the first token that does not parse raises.\<close>

fun parse_ranks :: "env \<Rightarrow> str list \<Rightarrow> error + int list" where
  "parse_ranks E [] = Inr []"
| "parse_ranks E (rank # ranks) =
     (case py_int E rank of
        None \<Rightarrow> Inl ValueError
      | Some n \<Rightarrow> (case parse_ranks E ranks of Inl e \<Rightarrow> Inl e | Inr ns \<Rightarrow> Inr (n # ns)))"

text \<open>
  The response after trimming, \<^verbatim>\<open>resp[begin : len(resp) - end]\<close>, or the
  \<^verbatim>\<open>IndexError\<close> of one of the two loops.
\<close>

definition trimmed :: "str \<Rightarrow> error + str" where
  "trimmed resp =
     (case find_begin resp 0 of
        Inl e \<Rightarrow> Inl e
      | Inr b \<Rightarrow>
          (case find_end resp 0 of
             Inl e \<Rightarrow> Inl e
           | Inr e \<Rightarrow> Inr (str_slice resp (int b) (int (length resp) - int e))))"

text \<open>
  One iteration, on the lines the standard output has taken so far: these lines afterwards
  and the key the iteration increments, or the exception that leaves the loop.
  \<open>len(set(ranks))\<close> is \<open>length (remdups ranks)\<close>.
\<close>

definition classify ::
  "env \<Rightarrow> bool \<Rightarrow> str list \<Rightarrow> str \<Rightarrow> int \<Rightarrow> error + (str list \<times> outcome)"
where
  "classify E verbose out resp num_passage =
     (if \<not> validate_format resp
      then (case emit E verbose out resp of
              Inl e \<Rightarrow> Inl e
            | Inr out' \<Rightarrow> Inr (out', WrongFormat))
      else
        case trimmed resp of
          Inl e \<Rightarrow> Inl e
        | Inr resp' \<Rightarrow>
            (case parse_ranks E (split resp' (ascii ''] > ['')) of
               Inl ValueError \<Rightarrow>
                 (case emit E verbose out resp' of
                    Inl e \<Rightarrow> Inl e
                  | Inr out' \<Rightarrow> Inr (out', WrongFormat))
             | Inl e \<Rightarrow> Inl e
             | Inr ranks \<Rightarrow>
                 if int (length ranks) < num_passage then Inr (out, MissingDocuments)
                 else if int (length ranks) > num_passage
                         \<or> int (length (remdups ranks)) < num_passage
                 then Inr (out, Repetition)
                 else Inr (out, Ok)))"

subsection \<open>\<^verbatim>\<open>count_errors\<close>\<close>

type_synonym stats = "(string \<times> nat) list"

definition stats_dict :: stats where
  "stats_dict = [(''ok'', 0), (''wrong_format'', 0), (''repetition'', 0),
     (''missing_documents'', 0)]"

text \<open>
  The loop over \<^verbatim>\<open>zip(responses, num_passages)\<close>, on the lines printed so far and the
  dictionary of counts. \<^verbatim>\<open>stats_dict[key] += 1\<close> is \<open>AList.map_entry\<close> on a key that is
  always present.
\<close>

fun count_loop ::
  "env \<Rightarrow> bool \<Rightarrow> (str \<times> int) list \<Rightarrow> str list \<Rightarrow> stats \<Rightarrow> str list \<times> (error + stats)"
where
  "count_loop E verbose [] out d = (out, Inr d)"
| "count_loop E verbose ((resp, num_passage) # ps) out d =
     (case classify E verbose out resp num_passage of
        Inl e \<Rightarrow> (out, Inl e)
      | Inr (out', oc) \<Rightarrow>
          count_loop E verbose ps out' (AList.map_entry (key_of oc) (\<lambda>n. n + 1) d))"

type_synonym report = "(string \<times> rat) list"

text \<open>
  \<^verbatim>\<open>for key in stats_dict: ...\<close>, in the order of insertion; the division raises when
  \<^verbatim>\<open>len(responses)\<close> is zero.
\<close>

fun normalized_stats :: "stats \<Rightarrow> nat \<Rightarrow> error + report" where
  "normalized_stats [] n = Inr []"
| "normalized_stats ((key, c) # d) n =
     (if n = 0 then Inl ZeroDivisionError
      else
        case normalized_stats d n of
          Inl e \<Rightarrow> Inl e
        | Inr r \<Rightarrow> Inr ((key, percent c n) # r))"

definition count_errors ::
  "env \<Rightarrow> str list \<Rightarrow> int list \<Rightarrow> bool \<Rightarrow> str list \<times> (error + report)"
where
  "count_errors E responses num_passages verbose =
     (case count_loop E verbose (zip responses num_passages) [] stats_dict of
        (out, Inl e) \<Rightarrow> (out, Inl e)
      | (out, Inr d) \<Rightarrow> (out, normalized_stats d (length responses)))"

subsection \<open>\<^verbatim>\<open>_get_num_passages\<close>\<close>

text \<open>
  A prompt is a value read by \<^verbatim>\<open>json.load\<close>. An object is the list of its items, each
  key once.
\<close>

datatype json =
    JNull
  | JBool bool
  | JNum rat
  | JStr str
  | JList "json list"
  | JObj "(string \<times> json) list"

text \<open>
  \<^verbatim>\<open>message["content"]\<close>: a missing key of a dictionary raises \<^verbatim>\<open>KeyError\<close>; a list, a
  string, a number, a truth value or \<^verbatim>\<open>None\<close> subscripted by a string raises
  \<^verbatim>\<open>TypeError\<close>.
\<close>

definition subscript_content :: "json \<Rightarrow> error + json" where
  "subscript_content message =
     (case message of
        JObj items \<Rightarrow>
          (case map_of items ''content'' of None \<Rightarrow> Inl KeyError | Some v \<Rightarrow> Inr v)
      | _ \<Rightarrow> Inl TypeError)"

text \<open>
  \<^verbatim>\<open>for message in prompt: search_text += message["content"]\<close>; adding anything but a
  string to a string raises \<^verbatim>\<open>TypeError\<close>.
\<close>

fun concat_contents :: "json list \<Rightarrow> str \<Rightarrow> error + str" where
  "concat_contents [] search_text = Inr search_text"
| "concat_contents (message # prompt) search_text =
     (case subscript_content message of
        Inl e \<Rightarrow> Inl e
      | Inr (JStr s) \<Rightarrow> concat_contents prompt (search_text @ s)
      | Inr _ \<Rightarrow> Inl TypeError)"

definition search_text_of :: "json \<Rightarrow> error + str" where
  "search_text_of prompt =
     (case prompt of
        JStr s \<Rightarrow> Inr s
      | JList messages \<Rightarrow> concat_contents messages []
      | _ \<Rightarrow> Inl ValueError)"

text \<open>
  The pattern \<^verbatim>\<open>(I will provide you with) (\d+) (passages)\<close> tried at the start of a
  string; the result is group 2. The digits are followed by a space in the pattern, so of
  the runs \<^verbatim>\<open>\d+\<close> may take only the longest one can be followed by the rest.
\<close>

definition match_here :: "str \<Rightarrow> str option" where
  "match_here s =
     (if prefix (ascii ''I will provide you with '') s
      then
        let r = drop (length (ascii ''I will provide you with '')) s;
            g2 = takeWhile isdecimal r
        in if g2 \<noteq> [] \<and> prefix (ascii '' passages'') (dropWhile isdecimal r)
           then Some g2 else None
      else None)"

text \<open>\<^verbatim>\<open>re.search\<close>: the match at the leftmost position that has one.\<close>

fun re_search :: "str \<Rightarrow> str option" where
  "re_search [] = match_here []"
| "re_search (c # cs) =
     (case match_here (c # cs) of Some g2 \<Rightarrow> Some g2 | None \<Rightarrow> re_search cs)"

definition get_num_passages :: "env \<Rightarrow> json \<Rightarrow> error + int" where
  "get_num_passages E prompt =
     (case search_text_of prompt of
        Inl e \<Rightarrow> Inl e
      | Inr search_text \<Rightarrow>
          (case re_search search_text of
             None \<Rightarrow> Inl ValueError
           | Some g2 \<Rightarrow> (case py_int E g2 of None \<Rightarrow> Inl ValueError | Some n \<Rightarrow> Inr n)))"

subsection \<open>Vocabulary of the properties\<close>

text \<open>A decimal integer token: a non-empty run of decimal digits.\<close>

definition decimal_token :: "str \<Rightarrow> bool" where
  "decimal_token ds \<longleftrightarrow> ds \<noteq> [] \<and> list_all isdecimal ds"

text \<open>The count phrase for the token \<open>ds\<close>, and its occurrence at position \<open>i\<close> of a text.\<close>

definition phrase :: "str \<Rightarrow> str" where
  "phrase ds = ascii ''I will provide you with '' @ ds @ ascii '' passages''"

definition phrase_at :: "str \<Rightarrow> nat \<Rightarrow> str \<Rightarrow> bool" where
  "phrase_at s i ds \<longleftrightarrow> decimal_token ds \<and> prefix (phrase ds) (drop i s)"

definition has_phrase :: "str \<Rightarrow> bool" where
  "has_phrase s \<longleftrightarrow> (\<exists>i ds. phrase_at s i ds)"

definition first_phrase_at :: "str \<Rightarrow> nat \<Rightarrow> str \<Rightarrow> bool" where
  "first_phrase_at s i ds \<longleftrightarrow> phrase_at s i ds \<and> (\<forall>j<i. \<forall>d. \<not> phrase_at s j d)"



text \<open>The outcome an iteration records when the diagnostic mode is off.\<close>

definition outcome_of :: "env \<Rightarrow> str \<Rightarrow> int \<Rightarrow> error + outcome" where
  "outcome_of E resp num_passage = map_sum id snd (classify E False [] resp num_passage)"

text \<open>The tokens of a response: the pieces of its trimmed core.\<close>

definition tokens :: "str \<Rightarrow> error + str list" where
  "tokens resp = map_sum id (\<lambda>c. split c (ascii ''] > ['')) (trimmed resp)"

text \<open>
  What the two trimming loops leave of a response that holds a digit: the characters from
  its first digit to its last.
\<close>

definition nondigit :: "nat \<Rightarrow> bool" where
  "nondigit c \<longleftrightarrow> \<not> isdigit c"

definition core :: "str \<Rightarrow> str" where
  "core resp = rev (dropWhile nondigit (rev (dropWhile nondigit resp)))"

definition has_digit :: "str \<Rightarrow> bool" where
  "has_digit resp \<longleftrightarrow> list_ex isdigit resp"

text \<open>
  The responses on which an iteration ends with a key when no print fails: those the
  character-set check rejects and those that hold a digit.
\<close>

definition classifiable :: "str \<Rightarrow> bool" where
  "classifiable resp \<longleftrightarrow> \<not> validate_format resp \<or> has_digit resp"

text \<open>
  A standard output that takes every line; the exceptions a standard output can raise;
  a call in which no print can fail.
\<close>

definition quiet :: "env \<Rightarrow> bool" where
  "quiet E \<longleftrightarrow> (\<forall>out line. stdout_write E out line = None)"

definition print_error :: "env \<Rightarrow> error \<Rightarrow> bool" where
  "print_error E e \<longleftrightarrow> (\<exists>out line. stdout_write E out line = Some e)"

definition prints_ok :: "env \<Rightarrow> bool \<Rightarrow> bool" where
  "prints_ok E verbose \<longleftrightarrow> \<not> verbose \<or> quiet E"

text \<open>
  The report in the words of the specification: the number of pairs with a given outcome,
  divided by the size of the batch, times 100, rounded to two decimals, under the four keys.
\<close>

definition tally :: "env \<Rightarrow> (str \<times> int) list \<Rightarrow> outcome \<Rightarrow> nat" where
  "tally E ps oc = length (filter (\<lambda>(resp, k). outcome_of E resp k = Inr oc) ps)"

definition report_of :: "env \<Rightarrow> (str \<times> int) list \<Rightarrow> nat \<Rightarrow> report" where
  "report_of E ps n =
     map (\<lambda>oc. (key_of oc, percent (tally E ps oc) n))
       [Ok, WrongFormat, Repetition, MissingDocuments]"


text \<open>
  A structured message exposes a textual \<^verbatim>\<open>content\<close> field; a prompt of the data model is
  a string or a sequence of structured messages, and its text is the string itself or
  the contents in order.
\<close>

definition is_message :: "json \<Rightarrow> bool" where
  "is_message m =
     (case m of
        JObj items \<Rightarrow> (case map_of items ''content'' of Some (JStr c) \<Rightarrow> True | _ \<Rightarrow> False)
      | _ \<Rightarrow> False)"

definition content_of :: "json \<Rightarrow> str" where
  "content_of m =
     (case m of
        JObj items \<Rightarrow> (case map_of items ''content'' of Some (JStr c) \<Rightarrow> c | _ \<Rightarrow> [])
      | _ \<Rightarrow> [])"

definition is_str :: "json \<Rightarrow> bool" where
  "is_str p = (case p of JStr s \<Rightarrow> True | _ \<Rightarrow> False)"

definition is_list :: "json \<Rightarrow> bool" where
  "is_list p = (case p of JList ms \<Rightarrow> True | _ \<Rightarrow> False)"

definition well_shaped :: "json \<Rightarrow> bool" where
  "well_shaped p =
     (case p of JStr s \<Rightarrow> True | JList ms \<Rightarrow> list_all is_message ms | _ \<Rightarrow> False)"

definition text_of :: "json \<Rightarrow> str" where
  "text_of p =
     (case p of JStr s \<Rightarrow> s | JList ms \<Rightarrow> concat (map content_of ms) | _ \<Rightarrow> [])"

section \<open>Properties\<close>

subsection \<open>The character tables\<close>

lemma isdecimal_isdigit: "isdecimal c \<Longrightarrow> isdigit c"
  by (simp add: isdigit_def)

lemma int_space_not_decimal: "int_space c \<Longrightarrow> \<not> isdecimal c"
proof -
  have "list_all (\<lambda>c. \<not> isdecimal c) int_spaces" by code_simp
  then show "int_space c \<Longrightarrow> \<not> isdecimal c" by (simp add: list_all_iff int_space_def)
qed

lemma marks_not_decimal:
  "\<not> isdecimal (cp CHR ''_'') \<and> \<not> isdecimal (cp CHR ''-'') \<and> \<not> isdecimal (cp CHR ''+'')
   \<and> \<not> isdecimal (cp CHR '' '')"
  by code_simp


subsection \<open>The trimming loops\<close>

declare find_begin.simps [simp del] find_end.simps [simp del]

lemma str_index_nat: "str_index s (int b) = (if b < length s then Inr (s ! b) else Inl IndexError)"
  by (simp add: str_index_def)

lemma has_digit_Cons: "has_digit (c # cs) \<longleftrightarrow> isdigit c \<or> has_digit cs"
  by (simp add: has_digit_def)

lemma find_begin_drop:
  "b \<le> length resp \<Longrightarrow>
   find_begin resp b =
     (if has_digit (drop b resp) then Inr (b + length (takeWhile nondigit (drop b resp)))
      else Inl IndexError)"
proof (induction resp b rule: find_begin.induct)
  case (1 resp b)
  show ?case
  proof (cases "b < length resp")
    case False
    with "1.prems" show ?thesis
      by (subst find_begin.simps) (simp add: str_index_nat has_digit_def)
  next
    case True
    then have d: "drop b resp = resp ! b # drop (Suc b) resp"
      by (simp add: Cons_nth_drop_Suc)
    show ?thesis
    proof (cases "isdigit (resp ! b)")
      case True
      then have "\<not> nondigit (resp ! b)" by (simp add: nondigit_def)
      with True \<open>b < length resp\<close> show ?thesis
        by (subst find_begin.simps) (simp add: str_index_nat d has_digit_Cons)
    next
      case False
      then have n: "nondigit (resp ! b)" by (simp add: nondigit_def)
      from False \<open>b < length resp\<close> have "find_begin resp b = find_begin resp (b + 1)"
        by (subst find_begin.simps) (simp add: str_index_nat)
      also have "\<dots> = (if has_digit (drop (b + 1) resp)
          then Inr (b + 1 + length (takeWhile nondigit (drop (b + 1) resp))) else Inl IndexError)"
        using "1.IH"[of "resp ! b"] \<open>b < length resp\<close> False by (simp add: str_index_nat)
      finally show ?thesis using False n by (simp add: d has_digit_Cons)
    qed
  qed
qed

lemma str_index_back:
  "e < length s \<Longrightarrow> str_index s (int (length s) - int e - 1) = Inr (rev s ! e)"
  by (simp add: str_index_def rev_nth nat_diff_distrib')

lemma find_end_drop:
  "e \<le> length resp \<Longrightarrow> has_digit (drop e (rev resp)) \<Longrightarrow>
   find_end resp e = Inr (e + length (takeWhile nondigit (drop e (rev resp))))"
proof (induction resp e rule: find_end.induct)
  case (1 resp e)
  from "1.prems" have lt: "e < length resp"
    by (cases "e = length resp") (simp_all add: has_digit_def)
  then have d: "drop e (rev resp) = rev resp ! e # drop (Suc e) (rev resp)"
    by (simp add: Cons_nth_drop_Suc)
  show ?case
  proof (cases "isdigit (rev resp ! e)")
    case True
    then have "\<not> nondigit (rev resp ! e)" by (simp add: nondigit_def)
    with True lt show ?thesis
      by (subst find_end.simps) (simp add: str_index_back d)
  next
    case False
    then have n: "nondigit (rev resp ! e)" by (simp add: nondigit_def)
    from False lt have "find_end resp e = find_end resp (e + 1)"
      by (subst find_end.simps) (simp add: str_index_back)
    also have "\<dots> = Inr (e + 1 + length (takeWhile nondigit (drop (e + 1) (rev resp))))"
      using "1.IH"[of "rev resp ! e"] lt False "1.prems"(2)
      by (simp add: str_index_back d has_digit_Cons)
    finally show ?thesis using n by (simp add: d)
  qed
qed

lemma has_digit_rev: "has_digit (rev s) = has_digit s"
  by (simp add: has_digit_def list_ex_iff)

lemma has_digit_dropWhile: "has_digit (dropWhile nondigit s) = has_digit s"
  by (induction s) (simp_all add: has_digit_Cons nondigit_def)

lemma trimmed_no_digit: "\<not> has_digit resp \<Longrightarrow> trimmed resp = Inl IndexError"
  by (simp add: trimmed_def find_begin_drop)

lemma core_alt:
  "core resp = take (length resp - length (takeWhile nondigit (rev resp)) - length (takeWhile nondigit resp))
      (drop (length (takeWhile nondigit resp)) resp)"
proof -
  let ?a = "takeWhile nondigit resp" and ?d = "dropWhile nondigit resp"
  have r: "resp = ?a @ ?d" by simp
  show ?thesis
  proof (cases "has_digit resp")
    case False
    then have "\<forall>c\<in>set resp. nondigit c" by (simp add: has_digit_def list_ex_iff nondigit_def)
    then have e: "?d = []" by simp
    then have "drop (length ?a) resp = []" by (simp only: dropWhile_eq_drop)
    with e show ?thesis by (simp only: core_def take_Nil dropWhile.simps rev.simps)
  next
    case True
    then have hd: "has_digit ?d" by (simp add: has_digit_dropWhile)
    then obtain c where c: "c \<in> set ?d" "\<not> nondigit c"
      by (auto simp: has_digit_def list_ex_iff nondigit_def)
    have "rev resp = rev ?d @ rev ?a" by (metis r rev_append)
    moreover from c have "\<exists>x\<in>set (rev ?d). \<not> nondigit x" by auto
    ultimately have tw: "takeWhile nondigit (rev resp) = takeWhile nondigit (rev ?d)"
      by (metis takeWhile_append1 )
    have "core resp = rev (drop (length (takeWhile nondigit (rev ?d))) (rev ?d))"
      unfolding core_def by (simp add: dropWhile_eq_drop)
    then have c1: "core resp = take (length ?d - length (takeWhile nondigit (rev ?d))) ?d"
      by (simp add: rev_drop)
    have len: "length ?d = length resp - length ?a"
      by (simp add: dropWhile_eq_drop)
    show ?thesis
      by (simp add: c1 tw len dropWhile_eq_drop ac_simps)
  qed
qed

lemma nat_int_diff: "nat (int a - int b) = a - b"
  by linarith

lemma trimmed_has_digit: "has_digit resp \<Longrightarrow> trimmed resp = Inr (core resp)"
proof -
  assume h: "has_digit resp"
  have le: "length (takeWhile nondigit resp) \<le> length resp" by (rule length_takeWhile_le)
  have le2: "length (takeWhile nondigit (rev resp)) \<le> length resp"
    using length_takeWhile_le[of nondigit "rev resp"] by simp
  from h show ?thesis
    using le le2
    by (simp add: trimmed_def find_begin_drop find_end_drop has_digit_rev core_alt
        str_slice_def slice_bound_def Let_def nat_int_diff)
qed

subsection \<open>One iteration\<close>

lemma parse_ranks_error: "parse_ranks E ts = Inl e \<Longrightarrow> e = ValueError"
  by (induction ts arbitrary: e) (auto split: option.splits sum.splits)

lemma emit_quiet: "emit E False out line = Inr out"
  by (simp add: emit_def)

lemma classify_quiet:
  "classify E False out resp k = map_sum id (Pair out) (outcome_of E resp k)"
  by (simp add: outcome_of_def classify_def emit_quiet split: sum.splits error.splits)

lemma outcome_of_invalid: "\<not> validate_format resp \<Longrightarrow> outcome_of E resp k = Inr WrongFormat"
  by (simp add: outcome_of_def classify_def emit_quiet)

lemma outcome_of_no_digit:
  "validate_format resp \<Longrightarrow> \<not> has_digit resp \<Longrightarrow> outcome_of E resp k = Inl IndexError"
  by (simp add: outcome_of_def classify_def trimmed_no_digit)

lemma outcome_of_unparsed:
  "validate_format resp \<Longrightarrow> has_digit resp \<Longrightarrow>
   parse_ranks E (split (core resp) (ascii ''] > ['')) = Inl e \<Longrightarrow>
   outcome_of E resp k = Inr WrongFormat"
  using parse_ranks_error[of E "split (core resp) (ascii ''] > ['')" e]
  by (simp add: outcome_of_def classify_def trimmed_has_digit emit_quiet)

lemma outcome_of_parsed:
  "validate_format resp \<Longrightarrow> trimmed resp = Inr c \<Longrightarrow>
   parse_ranks E (split c (ascii ''] > ['')) = Inr ranks \<Longrightarrow>
   outcome_of E resp k =
     Inr (if int (length ranks) < k then MissingDocuments
          else if k < int (length ranks) \<or> int (length (remdups ranks)) < k then Repetition
          else Ok)"
  by (simp add: outcome_of_def classify_def)

lemma classifiable_outcome: "classifiable resp \<Longrightarrow> \<exists>oc. outcome_of E resp k = Inr oc"
proof (cases "validate_format resp")
  case False
  then show ?thesis by (simp add: outcome_of_invalid)
next
  case True
  assume "classifiable resp"
  with True have h: "has_digit resp" by (simp add: classifiable_def)
  show ?thesis
  proof (cases "parse_ranks E (split (core resp) (ascii ''] > [''))")
    case (Inl e)
    with True h show ?thesis by (simp add: outcome_of_unparsed)
  next
    case (Inr ranks)
    with True h show ?thesis by (simp add: outcome_of_parsed trimmed_has_digit)
  qed
qed

lemma outcome_of_error:
  "outcome_of E resp k = Inl e \<Longrightarrow> \<not> classifiable resp \<and> e = IndexError"
proof -
  assume a: "outcome_of E resp k = Inl e"
  have "\<not> classifiable resp"
  proof
    assume "classifiable resp"
    from classifiable_outcome[OF this, of E k] a show False by auto
  qed
  moreover from this have "validate_format resp" "\<not> has_digit resp"
    by (simp_all add: classifiable_def)
  from outcome_of_no_digit[OF this, of E k] a have "e = IndexError" by simp
  ultimately show ?thesis by simp
qed

text \<open>An exception of the quiet iteration is the exception of the verbose one.\<close>

lemma classify_error:
  "outcome_of E resp k = Inl e \<Longrightarrow> classify E v out resp k = Inl e"
proof -
  assume a: "outcome_of E resp k = Inl e"
  from outcome_of_error[OF a] have "validate_format resp" "\<not> has_digit resp" "e = IndexError"
    by (simp_all add: classifiable_def)
  then show ?thesis by (simp add: classify_def trimmed_no_digit)
qed

text \<open>
  When the quiet iteration records a key, the verbose one records the same key or leaves
  with the exception of a print.
\<close>

lemma classify_outcome:
  assumes "outcome_of E resp k = Inr oc"
  shows "(\<exists>out'. classify E v out resp k = Inr (out', oc))
     \<or> (v \<and> (\<exists>e. print_error E e \<and> classify E v out resp k = Inl e))"
proof (cases v)
  case False
  with assms show ?thesis by (simp add: classify_quiet)
next
  case True
  have pe: "stdout_write E out line = Some e \<Longrightarrow> print_error E e" for line e
    unfolding print_error_def by blast
  from assms have q: "classify E False [] resp k = Inr ([], oc)"
    by (simp add: classify_quiet)
  show ?thesis
  proof (cases "validate_format resp")
    case False
    with q have "oc = WrongFormat" by (simp add: classify_def emit_quiet)
    with False True pe[of resp] show ?thesis
      by (cases "stdout_write E out resp") (auto simp: classify_def emit_def)
  next
    case valid: True
    with q obtain c where c: "trimmed resp = Inr c"
      by (cases "trimmed resp") (auto simp: classify_def)
    show ?thesis
    proof (cases "parse_ranks E (split c (ascii ''] > [''))")
      case (Inl e)
      with parse_ranks_error[OF Inl] valid c q have "oc = WrongFormat"
        by (simp add: classify_def emit_quiet)
      with valid c Inl parse_ranks_error[OF Inl] True pe[of c] show ?thesis
        by (cases "stdout_write E out c") (auto simp: classify_def emit_def)
    next
      case (Inr ranks)
      with valid c q show ?thesis by (auto simp: classify_def split: if_splits)
    qed
  qed
qed

lemma classify_prints_ok:
  "prints_ok E v \<Longrightarrow> outcome_of E resp k = Inr oc \<Longrightarrow>
   \<exists>out'. classify E v out resp k = Inr (out', oc)"
  using classify_outcome[of E resp k oc v out]
  by (auto simp: prints_ok_def quiet_def print_error_def)

subsection \<open>Characters through trimming, splitting and conversion\<close>










subsection \<open>Conversion of decimal tokens\<close>

lemma decimal_not_mark:
  "isdecimal c \<Longrightarrow>
   \<not> int_space c \<and> c \<noteq> cp CHR ''-'' \<and> c \<noteq> cp CHR ''+'' \<and> c \<noteq> cp CHR ''_''
   \<and> c \<noteq> cp CHR '' ''"
  using int_space_not_decimal[of c] marks_not_decimal by auto

lemma digits_ok_decimal: "ds \<noteq> [] \<Longrightarrow> list_all isdecimal ds \<Longrightarrow> digits_ok ds"
  by (induction ds rule: digits_ok.induct) (auto simp: decimal_not_mark)

lemma strip_decimal: "decimal_token ds \<Longrightarrow> strip ds = ds"
proof -
  assume d: "decimal_token ds"
  then obtain c cs where c: "ds = c # cs" by (cases ds) (auto simp: decimal_token_def)
  with d have "\<not> int_space c" by (simp add: decimal_token_def decimal_not_mark)
  with c have 1: "dropWhile int_space ds = ds" by simp
  from d have "rev ds \<noteq> []" "isdecimal (hd (rev ds))"
    by (auto simp: decimal_token_def list_all_iff hd_rev)
  then have "dropWhile int_space (rev ds) = rev ds"
    by (cases "rev ds") (auto simp: decimal_not_mark)
  with 1 show ?thesis by (simp add: strip_def)
qed

text \<open>
  \<^verbatim>\<open>int\<close> on a decimal token: its value when the token is within the limit,
  \<^verbatim>\<open>ValueError\<close> otherwise.
\<close>

lemma py_int_decimal:
  "decimal_token ds \<Longrightarrow>
   py_int E ds = (if within_limit E ds then Some (decimal_value ds) else None)"
proof -
  assume d: "decimal_token ds"
  then obtain c cs where c: "ds = c # cs" by (cases ds) (auto simp: decimal_token_def)
  with d have "isdecimal c" by (simp add: decimal_token_def)
  then have n: "c \<noteq> cp CHR ''-''" "c \<noteq> cp CHR ''+''" by (simp_all add: decimal_not_mark)
  from d have "digits_ok ds" by (simp add: decimal_token_def digits_ok_decimal)
  with n c show ?thesis
    by (simp add: py_int_def digits_int_def strip_decimal[OF d, unfolded c])
qed

lemma within_limit_short: "length ds \<le> 1 \<Longrightarrow> within_limit E ds"
proof -
  assume "length ds \<le> 1"
  moreover have "length (filter (\<lambda>c. c \<noteq> cp CHR ''_'') ds) \<le> length ds" by simp
  ultimately have "length (filter (\<lambda>c. c \<noteq> cp CHR ''_'') ds) \<le> 1" by linarith
  then show ?thesis unfolding within_limit_def by (cases "max_str_digits E") simp_all
qed

text \<open>A token of one decimal digit converts under every setting of the limit.\<close>

lemma py_int_digit: "isdecimal c \<Longrightarrow> py_int E [c] = Some (decimal_value [c])"
  by (simp add: py_int_decimal decimal_token_def within_limit_short)

lemma count_errors_raises:
  "classify E v [] resp k = Inl e \<Longrightarrow> count_errors E (resp # rs) (k # ks) v = ([], Inl e)"
  by (simp add: count_errors_def)

subsection \<open>C1: a response without a digit\<close>

text \<open>
  C1 says that every response is given one of the four outcomes and that classification never
  fails, also for a response that passes the character check and holds no digit. The
  code does not do that: on the empty response and on \<^verbatim>\<open>[] > []\<close>, both of which pass
  the check, the first trimming loop reads past the end of the string and
  \<^verbatim>\<open>count_errors\<close> leaves with \<^verbatim>\<open>IndexError\<close>, under every setting of the interpreter.
\<close>

theorem no_digit_response_raises:
  "validate_format [] \<and> count_errors E [[]] [1] False = ([], Inl IndexError)
   \<and> validate_format (ascii ''[] > []'')
   \<and> count_errors E [ascii ''[] > []''] [2] False = ([], Inl IndexError)"
proof -
  have v: "validate_format (ascii ''[] > []'')" by code_simp
  have h: "\<not> has_digit (ascii ''[] > []'')" by code_simp
  have h0: "\<not> has_digit []" by code_simp
  from outcome_of_no_digit[OF v h] have "classify E False [] (ascii ''[] > []'') 2 = Inl IndexError"
    by (rule classify_error)
  then have 1: "count_errors E [ascii ''[] > []''] [2] False = ([], Inl IndexError)"
    by (rule count_errors_raises)
  have "validate_format []" by simp
  from outcome_of_no_digit[OF this h0] have "classify E False [] [] 1 = Inl IndexError"
    by (rule classify_error)
  then have 2: "count_errors E [[]] [1] False = ([], Inl IndexError)"
    by (rule count_errors_raises)
  from v 1 2 show ?thesis by simp
qed

subsection \<open>C2: the empty batch\<close>

text \<open>
  C2 says that an empty batch is rejected before any arithmetic and never ends in a division
  by zero. On the empty batch the code reaches the first division and raises
  \<^verbatim>\<open>ZeroDivisionError\<close>.
\<close>

theorem empty_batch_counterexample:
  "snd (count_errors cpython [] [] False) = Inl ZeroDivisionError"
  by (simp add: count_errors_def stats_dict_def)

text \<open>
  C2, as the code has it: with no responses, whatever the expected counts, the diagnostic
  mode and the settings of the interpreter, \<^verbatim>\<open>count_errors\<close> prints nothing and fails with
  \<^verbatim>\<open>ZeroDivisionError\<close>, raised by the first normalising division; it returns no report.
\<close>

theorem empty_batch_zero_division:
  "count_errors E [] num_passages verbose = ([], Inl ZeroDivisionError)"
  by (simp add: count_errors_def stats_dict_def)

subsection \<open>C3: the combinatorial check\<close>

text \<open>
  C3: for a response that passes the character check and whose tokens all parse as integers,
  the outcome against the expected count \<open>k\<close> is \<open>missing_documents\<close> when there are
  fewer than \<open>k\<close> ranks, \<open>repetition\<close> when there are more than \<open>k\<close> ranks or fewer than
  \<open>k\<close> distinct values, and \<open>ok\<close> otherwise.
\<close>

theorem combinatorial_outcome:
  assumes "validate_format resp"
    and "tokens resp = Inr toks"
    and "parse_ranks E toks = Inr ranks"
  shows "outcome_of E resp k =
     Inr (if int (length ranks) < k then MissingDocuments
          else if k < int (length ranks) \<or> int (card (set ranks)) < k then Repetition
          else Ok)"
proof -
  from assms(2) obtain c where c: "trimmed resp = Inr c" "toks = split c (ascii ''] > ['')"
    by (cases "trimmed resp") (auto simp: tokens_def)
  from outcome_of_parsed[OF assms(1) c(1), of E ranks k] assms(3) c(2)
  show ?thesis by (simp add: length_remdups_card_conv)
qed

theorem combinatorial_outcome_witness:
  "validate_format (ascii ''[1] > [1] > [2] > [3]'')
   \<and> tokens (ascii ''[1] > [1] > [2] > [3]'') = Inr [ascii ''1'', ascii ''1'', ascii ''2'', ascii ''3'']
   \<and> parse_ranks cpython [ascii ''1'', ascii ''1'', ascii ''2'', ascii ''3''] = Inr [1, 1, 2, 3]
   \<and> outcome_of cpython (ascii ''[1] > [1] > [2] > [3]'') 3 = Inr Repetition"
proof -
  have v: "validate_format (ascii ''[1] > [1] > [2] > [3]'')" by code_simp
  have t: "tokens (ascii ''[1] > [1] > [2] > [3]'')
      = Inr [ascii ''1'', ascii ''1'', ascii ''2'', ascii ''3'']" by code_simp
  have p: "parse_ranks cpython [ascii ''1'', ascii ''1'', ascii ''2'', ascii ''3'']
      = Inr [1, 1, 2, 3]" by code_simp
  from combinatorial_outcome[OF v t p, of 3] v t p show ?thesis by simp
qed

subsection \<open>C9: no range check on the ranks\<close>

text \<open>
  C9: the outcome \<open>ok\<close> does not need the ranks to lie between 1 and the expected count.
  The response \<^verbatim>\<open>[7] > [9]\<close> has the two ranks 7 and 9, neither of them in 1..2, and
  against the expected count 2 its outcome is \<open>ok\<close>, under every setting of the interpreter.
\<close>

theorem ok_without_range_check:
  "tokens (ascii ''[7] > [9]'') = Inr [ascii ''7'', ascii ''9'']
   \<and> parse_ranks E [ascii ''7'', ascii ''9''] = Inr [7, 9]
   \<and> outcome_of E (ascii ''[7] > [9]'') 2 = Inr Ok"
proof -
  have v: "validate_format (ascii ''[7] > [9]'')" by code_simp
  have t: "tokens (ascii ''[7] > [9]'') = Inr [ascii ''7'', ascii ''9'']" by code_simp
  have a: "ascii ''7'' = [55]" "ascii ''9'' = [57]" by code_simp+
  have d: "isdecimal 55" "isdecimal 57" "decimal_value [55] = 7" "decimal_value [57] = 9"
    by code_simp+
  have p: "parse_ranks E [ascii ''7'', ascii ''9''] = Inr [7, 9]"
    by (simp add: a d py_int_digit)
  have tr: "trimmed (ascii ''[7] > [9]'') = Inr (ascii ''7] > [9'')" by code_simp
  have sp: "split (ascii ''7] > [9'') (ascii ''] > ['') = [ascii ''7'', ascii ''9'']" by code_simp
  from p have "parse_ranks E (split (ascii ''7] > [9'') (ascii ''] > ['')) = Inr [7, 9]"
    by (simp only: sp)
  from outcome_of_parsed[OF v tr this, of 2]
  have "outcome_of E (ascii ''[7] > [9]'') 2 = Inr Ok" by simp
  with t p show ?thesis by simp
qed

subsection \<open>C4: the character check\<close>




subsection \<open>The loop with and without the diagnostic mode\<close>




subsection \<open>C8: the diagnostic mode\<close>




subsection \<open>The search for the count phrase\<close>

lemma tail_starts_with_space: "ascii '' passages'' = cp CHR '' '' # ascii ''passages''"
  by (simp add: ascii_def)

lemma match_here_iff:
  "match_here s = Some ds \<longleftrightarrow> decimal_token ds \<and> prefix (phrase ds) s"
proof
  assume m: "match_here s = Some ds"
  then have p: "prefix (ascii ''I will provide you with '') s"
    by (simp add: match_here_def split: if_splits)
  then obtain r where r: "s = ascii ''I will provide you with '' @ r" by (auto simp: prefix_def)
  then have dr: "drop (length (ascii ''I will provide you with '')) s = r" by simp
  from m p have ds: "ds = takeWhile isdecimal r" "ds \<noteq> []"
      "prefix (ascii '' passages'') (dropWhile isdecimal r)"
    unfolding match_here_def dr by (auto simp: Let_def split: if_splits)
  from ds(3) obtain post where "dropWhile isdecimal r = ascii '' passages'' @ post"
    by (auto simp: prefix_def)
  with ds(1) have "r = ds @ ascii '' passages'' @ post"
    by (metis takeWhile_dropWhile_id)
  with r have "s = phrase ds @ post" by (simp add: phrase_def)
  moreover from ds(1) have "list_all isdecimal ds"
    by (simp add: list_all_iff) (meson set_takeWhileD)
  ultimately show "decimal_token ds \<and> prefix (phrase ds) s"
    using ds(2) by (simp add: decimal_token_def)
next
  assume a: "decimal_token ds \<and> prefix (phrase ds) s"
  then obtain post
    where s: "s = ascii ''I will provide you with '' @ ds @ ascii '' passages'' @ post"
    by (auto simp: prefix_def phrase_def)
  from a have d: "ds \<noteq> []" "list_all isdecimal ds" by (simp_all add: decimal_token_def)
  have p: "prefix (ascii ''I will provide you with '') s" unfolding s by (rule prefixI) simp
  have dr: "drop (length (ascii ''I will provide you with '')) s
      = ds @ ascii '' passages'' @ post"
    unfolding s by simp
  from d(2) have tw: "takeWhile isdecimal (ds @ ascii '' passages'' @ post) = ds"
    by (simp add: list_all_iff tail_starts_with_space marks_not_decimal)
  from d(2) have dw: "dropWhile isdecimal (ds @ ascii '' passages'' @ post)
      = ascii '' passages'' @ post"
    by (simp add: list_all_iff tail_starts_with_space marks_not_decimal)
  have pp: "prefix (ascii '' passages'') (ascii '' passages'' @ post)" by (rule prefixI) simp
  show "match_here s = Some ds"
    unfolding match_here_def dr Let_def tw dw using p d(1) pp by simp
qed

lemma phrase_at_0: "phrase_at s 0 ds \<longleftrightarrow> match_here s = Some ds"
  by (simp add: phrase_at_def match_here_iff)

lemma phrase_at_Suc: "phrase_at (c # cs) (Suc i) ds \<longleftrightarrow> phrase_at cs i ds"
  by (simp add: phrase_at_def)

lemma phrase_at_Nil: "\<not> phrase_at [] i ds"
  by (simp add: phrase_at_def phrase_def ascii_def)

lemma re_search_None: "re_search s = None \<Longrightarrow> \<not> phrase_at s i ds"
proof (induction s arbitrary: i)
  case Nil
  show ?case by (rule phrase_at_Nil)
next
  case (Cons c cs)
  from Cons.prems have m: "match_here (c # cs) = None" and r: "re_search cs = None"
    by (simp_all split: option.splits)
  show ?case
  proof (cases i)
    case 0
    with m show ?thesis by (simp add: phrase_at_0)
  next
    case (Suc j)
    with Cons.IH[OF r, of j] show ?thesis by (simp add: phrase_at_Suc)
  qed
qed

lemma re_search_Some: "re_search s = Some ds \<Longrightarrow> \<exists>i. first_phrase_at s i ds"
proof (induction s)
  case Nil
  then show ?case by (simp add: match_here_def ascii_def)
next
  case (Cons c cs)
  show ?case
  proof (cases "match_here (c # cs)")
    case (Some g)
    with Cons.prems have "g = ds" by simp
    with Some have "first_phrase_at (c # cs) 0 ds"
      by (simp add: first_phrase_at_def phrase_at_0)
    then show ?thesis ..
  next
    case None
    with Cons.prems have "re_search cs = Some ds" by simp
    from Cons.IH[OF this] obtain i where i: "first_phrase_at cs i ds" ..
    have "first_phrase_at (c # cs) (Suc i) ds"
      unfolding first_phrase_at_def
    proof (intro conjI allI impI)
      from i show "phrase_at (c # cs) (Suc i) ds"
        by (simp add: first_phrase_at_def phrase_at_Suc)
    next
      fix j d
      assume "j < Suc i"
      show "\<not> phrase_at (c # cs) j d"
      proof (cases j)
        case 0
        with None show ?thesis by (simp add: phrase_at_0)
      next
        case (Suc k)
        with \<open>j < Suc i\<close> i show ?thesis
          by (simp add: first_phrase_at_def phrase_at_Suc)
      qed
    qed
    then show ?thesis ..
  qed
qed

lemma first_phrase_unique:
  assumes "first_phrase_at s i ds" and "first_phrase_at s j d"
  shows "i = j \<and> ds = d"
proof -
  from assms have "\<not> j < i" "\<not> i < j" by (auto simp: first_phrase_at_def)
  then have e: "i = j" by simp
  from assms have "phrase_at (drop i s) 0 ds" "phrase_at (drop i s) 0 d"
    unfolding e by (simp_all add: first_phrase_at_def phrase_at_def)
  then have "ds = d" by (simp add: phrase_at_0)
  with e show ?thesis by simp
qed

lemma re_search_first: "first_phrase_at s i ds \<Longrightarrow> re_search s = Some ds"
proof -
  assume f: "first_phrase_at s i ds"
  show ?thesis
  proof (cases "re_search s")
    case None
    from re_search_None[OF None, of i ds] f show ?thesis by (simp add: first_phrase_at_def)
  next
    case (Some g)
    from re_search_Some[OF Some] obtain j where "first_phrase_at s j g" ..
    from first_phrase_unique[OF f this] Some show ?thesis by simp
  qed
qed

lemma has_phrase_search: "has_phrase s \<longleftrightarrow> re_search s \<noteq> None"
proof
  assume "has_phrase s"
  then obtain i ds where "phrase_at s i ds" by (auto simp: has_phrase_def)
  with re_search_None[of s i ds] show "re_search s \<noteq> None" by auto
next
  assume "re_search s \<noteq> None"
  then obtain ds where "re_search s = Some ds" by auto
  from re_search_Some[OF this] show "has_phrase s"
    by (auto simp: has_phrase_def first_phrase_at_def)
qed

lemma phrase_at_first:
  assumes "phrase_at s j d"
  shows "\<exists>i ds. i \<le> j \<and> first_phrase_at s i ds"
proof -
  from assms re_search_None[of s j d] obtain ds where "re_search s = Some ds" by auto
  from re_search_Some[OF this] obtain i where i: "first_phrase_at s i ds" ..
  with assms have "\<not> j < i" by (auto simp: first_phrase_at_def)
  with i show ?thesis by (intro exI[of _ i] exI[of _ ds]) simp
qed

subsection \<open>The shapes of a prompt\<close>

lemma is_message_content:
  "is_message m \<Longrightarrow> subscript_content m = Inr (JStr (content_of m))"
  by (auto simp: is_message_def subscript_content_def content_of_def
      split: json.splits option.splits)

lemma not_message_error:
  "\<not> is_message m \<Longrightarrow>
   subscript_content m = Inl KeyError \<or> subscript_content m = Inl TypeError
   \<or> (\<exists>v. subscript_content m = Inr v \<and> (\<forall>s. v \<noteq> JStr s))"
  by (auto simp: is_message_def subscript_content_def split: json.splits option.splits)

lemma concat_contents_messages:
  "list_all is_message ms \<Longrightarrow>
   concat_contents ms acc = Inr (acc @ concat (map content_of ms))"
  by (induction ms arbitrary: acc) (simp_all add: is_message_content)

lemma concat_contents_bad:
  "\<not> list_all is_message ms \<Longrightarrow>
   concat_contents ms acc = Inl KeyError \<or> concat_contents ms acc = Inl TypeError"
proof (induction ms arbitrary: acc)
  case Nil
  then show ?case by simp
next
  case (Cons m ms)
  show ?case
  proof (cases "is_message m")
    case True
    with Cons.prems have "\<not> list_all is_message ms" by simp
    from Cons.IH[OF this, of "acc @ content_of m"] True show ?thesis
      by (simp add: is_message_content)
  next
    case False
    from not_message_error[OF False] show ?thesis
      by (auto split: json.splits)
  qed
qed

lemma search_text_well_shaped: "well_shaped p \<Longrightarrow> search_text_of p = Inr (text_of p)"
  by (cases p) (simp_all add: well_shaped_def search_text_of_def text_of_def concat_contents_messages)

lemma search_text_bad_list:
  "is_list p \<Longrightarrow> \<not> well_shaped p \<Longrightarrow>
   search_text_of p = Inl KeyError \<or> search_text_of p = Inl TypeError"
  by (cases p) (simp_all add: is_list_def well_shaped_def search_text_of_def concat_contents_bad)

lemma search_text_other:
  "\<not> is_str p \<Longrightarrow> \<not> is_list p \<Longrightarrow> search_text_of p = Inl ValueError"
  by (cases p) (simp_all add: is_str_def is_list_def search_text_of_def)

lemma shape_cases:
  "well_shaped p \<or> (is_list p \<and> \<not> well_shaped p) \<or> (\<not> is_str p \<and> \<not> is_list p \<and> \<not> well_shaped p)"
  by (cases p) (simp_all add: is_str_def is_list_def well_shaped_def)

lemma well_shaped_kind: "well_shaped p \<Longrightarrow> is_str p \<or> is_list p"
  by (cases p) (simp_all add: is_str_def is_list_def well_shaped_def)

lemma get_num_passages_found:
  "well_shaped p \<Longrightarrow> first_phrase_at (text_of p) i ds \<Longrightarrow>
   get_num_passages E p =
     (if within_limit E ds then Inr (decimal_value ds) else Inl ValueError)"
proof -
  assume w: "well_shaped p" and f: "first_phrase_at (text_of p) i ds"
  from f have "decimal_token ds" by (simp add: first_phrase_at_def phrase_at_def)
  with w re_search_first[OF f] show ?thesis
    by (simp add: get_num_passages_def search_text_well_shaped py_int_decimal)
qed

lemma get_num_passages_not_found:
  "well_shaped p \<Longrightarrow> \<not> has_phrase (text_of p) \<Longrightarrow> get_num_passages E p = Inl ValueError"
  by (simp add: get_num_passages_def search_text_well_shaped has_phrase_search)

lemma get_num_passages_bad_list:
  "is_list p \<Longrightarrow> \<not> well_shaped p \<Longrightarrow>
   get_num_passages E p = Inl KeyError \<or> get_num_passages E p = Inl TypeError"
  using search_text_bad_list[of p] by (auto simp: get_num_passages_def)

lemma get_num_passages_other:
  "\<not> is_str p \<Longrightarrow> \<not> is_list p \<Longrightarrow> get_num_passages E p = Inl ValueError"
  by (simp add: get_num_passages_def search_text_other)

lemma well_shaped_text:
  "well_shaped p \<Longrightarrow> well_shaped (JStr (text_of p)) \<and> text_of (JStr (text_of p)) = text_of p"
  by (simp add: well_shaped_def text_of_def)

lemma phrase_at_self: "decimal_token ds \<Longrightarrow> first_phrase_at (phrase ds) 0 ds"
  by (simp add: first_phrase_at_def phrase_at_def)

lemma ones_token: "0 < n \<Longrightarrow> decimal_token (replicate n 49)"
proof -
  have "isdecimal 49" by code_simp
  then show "0 < n \<Longrightarrow> decimal_token (replicate n 49)"
    by (simp add: decimal_token_def list_all_iff)
qed

lemma ones_over_limit: "\<not> within_limit cpython (replicate 4301 49)"
proof -
  have "cp CHR ''_'' \<noteq> 49" by code_simp
  then have "filter (\<lambda>c. c \<noteq> cp CHR ''_'') (replicate 4301 49) = replicate 4301 49"
    by (simp add: filter_replicate)
  then show ?thesis by (simp add: within_limit_def cpython_def)
qed

subsection \<open>C6: the expected count is that of the first match\<close>

text \<open>
  C6 says that the extractor returns N for every prompt that holds the count phrase with a
  decimal integer token N. \<^verbatim>\<open>int\<close> refuses a token of more digits than the limit of the
  interpreter, 4300 by default: on the prompt that is the phrase with a token of 4301
  digits, the extractor fails with \<^verbatim>\<open>ValueError\<close>.
\<close>

theorem long_token_counterexample:
  "first_phrase_at (text_of (JStr (phrase (replicate 4301 49)))) 0 (replicate 4301 49)
   \<and> get_num_passages cpython (JStr (phrase (replicate 4301 49))) = Inl ValueError"
proof -
  have t: "text_of (JStr (phrase (replicate 4301 49))) = phrase (replicate 4301 49)"
    by (simp add: text_of_def)
  have f: "first_phrase_at (text_of (JStr (phrase (replicate 4301 49)))) 0 (replicate 4301 49)"
    unfolding t by (rule phrase_at_self) (simp add: ones_token)
  have w: "well_shaped (JStr (phrase (replicate 4301 49)))" by (simp add: well_shaped_def)
  from get_num_passages_found[OF w f, of cpython] ones_over_limit f show ?thesis by simp
qed

text \<open>
  C6, as the code has it: for a prompt that is a string, or a sequence of structured
  messages, whose text (the string, or the contents of the messages in order) holds the
  count phrase for some decimal token at some position, there is a first position from the
  left that holds the phrase; \<^verbatim>\<open>_get_num_passages\<close> returns the number written there when
  its token has no more digits than the limit of the interpreter on conversions, and fails
  with \<^verbatim>\<open>ValueError\<close> when it has more. The sequence of messages and the plain string
  of the same text give the same result.
\<close>

theorem extraction_first_match:
  assumes "well_shaped prompt" and "phrase_at (text_of prompt) j d"
  shows "\<exists>i ds. i \<le> j \<and> first_phrase_at (text_of prompt) i ds
           \<and> get_num_passages E prompt =
               (if within_limit E ds then Inr (decimal_value ds) else Inl ValueError)
           \<and> get_num_passages E (JStr (text_of prompt)) = get_num_passages E prompt"
proof -
  from phrase_at_first[OF assms(2)] obtain i ds
    where i: "i \<le> j" "first_phrase_at (text_of prompt) i ds" by blast
  from get_num_passages_found[OF assms(1) i(2)]
  have 1: "get_num_passages E prompt =
      (if within_limit E ds then Inr (decimal_value ds) else Inl ValueError)" .
  from well_shaped_text[OF assms(1)] i(2)
  have "well_shaped (JStr (text_of prompt))"
    "first_phrase_at (text_of (JStr (text_of prompt))) i ds" by simp_all
  from get_num_passages_found[OF this]
  have 2: "get_num_passages E (JStr (text_of prompt)) =
      (if within_limit E ds then Inr (decimal_value ds) else Inl ValueError)" .
  from 2 have 3: "get_num_passages E (JStr (text_of prompt)) = get_num_passages E prompt"
    by (simp only: 1)
  from i 1 3 show ?thesis by blast
qed

theorem extraction_first_match_witness:
  "well_shaped (JList
      [JObj [(''role'', JStr (ascii ''system'')),
             (''content'', JStr (ascii ''Hi. I will provide you ''))],
       JObj [(''role'', JStr (ascii ''user'')),
         (''content'',
          JStr (ascii ''with 20 passages and then I will provide you with 3 passages''))]])
   \<and> phrase_at (text_of (JList
      [JObj [(''role'', JStr (ascii ''system'')),
             (''content'', JStr (ascii ''Hi. I will provide you ''))],
       JObj [(''role'', JStr (ascii ''user'')),
         (''content'',
          JStr (ascii ''with 20 passages and then I will provide you with 3 passages''))]]))
       49 (ascii ''3'')
   \<and> get_num_passages cpython (JList
      [JObj [(''role'', JStr (ascii ''system'')),
             (''content'', JStr (ascii ''Hi. I will provide you ''))],
       JObj [(''role'', JStr (ascii ''user'')),
         (''content'',
          JStr (ascii ''with 20 passages and then I will provide you with 3 passages''))]])
       = Inr 20
   \<and> get_num_passages cpython
       (JStr (ascii
          ''Hi. I will provide you with 20 passages and then I will provide you with 3 passages''))
       = Inr 20"
proof -
  let ?p = "JList
      [JObj [(''role'', JStr (ascii ''system'')),
             (''content'', JStr (ascii ''Hi. I will provide you ''))],
       JObj [(''role'', JStr (ascii ''user'')),
         (''content'',
          JStr (ascii ''with 20 passages and then I will provide you with 3 passages''))]]"
  have w: "well_shaped ?p" by code_simp
  have ph: "phrase_at (text_of ?p) 49 (ascii ''3'')" by code_simp
  have tx: "text_of ?p = ascii
      ''Hi. I will provide you with 20 passages and then I will provide you with 3 passages''"
    by code_simp
  have g: "get_num_passages cpython ?p = Inr 20" by code_simp
  from extraction_first_match[OF w ph, of cpython]
  have "get_num_passages cpython (JStr (text_of ?p)) = get_num_passages cpython ?p" by blast
  with g have g': "get_num_passages cpython (JStr (ascii
      ''Hi. I will provide you with 20 passages and then I will provide you with 3 passages''))
      = Inr 20" by (simp only: tx)
  show ?thesis by (intro conjI) (rule w, rule ph, rule g, rule g')
qed

subsection \<open>C7: when the extractor fails\<close>

text \<open>
  C7 says that the extractor fails with the format error (\<^verbatim>\<open>ValueError\<close> in the source)
  exactly when the prompt is neither a string nor a sequence of structured messages or the
  phrase is not found, and returns an integer otherwise. The source inspects the type of
  the prompt only: a list whose element has no \<^verbatim>\<open>content\<close> key, or a content that is not
  a string, is not a sequence of structured messages, and the extractor leaves with
  \<^verbatim>\<open>KeyError\<close> or \<^verbatim>\<open>TypeError\<close>.
\<close>

theorem extractor_error_counterexample:
  "\<not> well_shaped (JList [JObj [(''role'', JStr (ascii ''user''))]])
   \<and> get_num_passages cpython (JList [JObj [(''role'', JStr (ascii ''user''))]]) = Inl KeyError
   \<and> \<not> well_shaped (JList [JObj [(''role'', JStr (ascii ''user'')), (''content'', JNull)]])
   \<and> get_num_passages cpython
        (JList [JObj [(''role'', JStr (ascii ''user'')), (''content'', JNull)]]) = Inl TypeError"
  by code_simp

text \<open>
  C7, as the code has it. The extractor fails with \<^verbatim>\<open>ValueError\<close> exactly when the prompt
  is neither a string nor a list, or when it is a string or a sequence of structured
  messages whose text does not hold the count phrase, or holds it first with a token of
  more digits than the limit of the interpreter on conversions. It returns an integer
  exactly when the prompt is a string or a sequence of structured messages whose text
  holds the phrase, first with a token within the limit. It fails with \<^verbatim>\<open>KeyError\<close> or
  \<^verbatim>\<open>TypeError\<close> exactly when the prompt is a list that is not a sequence of structured
  messages.
\<close>

theorem extractor_outcomes:
  "(get_num_passages E p = Inl ValueError \<longleftrightarrow>
      (\<not> is_str p \<and> \<not> is_list p)
      \<or> (well_shaped p \<and> \<not> has_phrase (text_of p))
      \<or> (well_shaped p \<and> (\<exists>i ds. first_phrase_at (text_of p) i ds \<and> \<not> within_limit E ds)))
   \<and> ((\<exists>n. get_num_passages E p = Inr n) \<longleftrightarrow>
        well_shaped p \<and> (\<exists>i ds. first_phrase_at (text_of p) i ds \<and> within_limit E ds))
   \<and> (get_num_passages E p = Inl KeyError \<or> get_num_passages E p = Inl TypeError \<longleftrightarrow>
        is_list p \<and> \<not> well_shaped p)"
proof -
  have nf: "\<not> has_phrase s \<Longrightarrow> \<not> first_phrase_at s i ds" for s i ds
    by (auto simp: has_phrase_def first_phrase_at_def)
  consider (found) i ds where "well_shaped p" "first_phrase_at (text_of p) i ds"
    | (none) "well_shaped p" "\<not> has_phrase (text_of p)"
    | (bad) "is_list p" "\<not> well_shaped p"
    | (other) "\<not> is_str p" "\<not> is_list p" "\<not> well_shaped p"
  proof -
    assume a: "\<And>i ds. well_shaped p \<Longrightarrow> first_phrase_at (text_of p) i ds \<Longrightarrow> thesis"
      "well_shaped p \<Longrightarrow> \<not> has_phrase (text_of p) \<Longrightarrow> thesis"
      "is_list p \<Longrightarrow> \<not> well_shaped p \<Longrightarrow> thesis"
      "\<not> is_str p \<Longrightarrow> \<not> is_list p \<Longrightarrow> \<not> well_shaped p \<Longrightarrow> thesis"
    show thesis
    proof (cases "well_shaped p")
      case False
      with shape_cases[of p] a(3,4) show thesis by blast
    next
      case True
      show thesis
      proof (cases "has_phrase (text_of p)")
        case False
        with True a(2) show thesis by blast
      next
        case hp: True
        then obtain j d where "phrase_at (text_of p) j d" by (auto simp: has_phrase_def)
        from phrase_at_first[OF this] obtain i ds where "first_phrase_at (text_of p) i ds"
          by blast
        with True a(1) show thesis by blast
      qed
    qed
  qed
  then show ?thesis
  proof cases
    case found
    have hp: "has_phrase (text_of p)"
      using found(2) by (auto simp: has_phrase_def first_phrase_at_def)
    have u: "first_phrase_at (text_of p) i' ds' \<Longrightarrow> ds' = ds" for i' ds'
      using first_phrase_unique[OF found(2)] by auto
    note k = well_shaped_kind[OF found(1)]
    show ?thesis
    proof (cases "within_limit E ds")
      case True
      with get_num_passages_found[OF found, of E]
      have g: "get_num_passages E p = Inr (decimal_value ds)" by simp
      from True found(2) have "\<exists>i ds. first_phrase_at (text_of p) i ds \<and> within_limit E ds"
        by blast
      moreover from True u
      have "\<not> (\<exists>i ds. first_phrase_at (text_of p) i ds \<and> \<not> within_limit E ds)" by blast
      ultimately show ?thesis using g found(1) hp k by auto
    next
      case False
      with get_num_passages_found[OF found, of E]
      have g: "get_num_passages E p = Inl ValueError" by simp
      from False found(2) have "\<exists>i ds. first_phrase_at (text_of p) i ds \<and> \<not> within_limit E ds"
        by blast
      moreover from False u
      have "\<not> (\<exists>i ds. first_phrase_at (text_of p) i ds \<and> within_limit E ds)" by blast
      ultimately show ?thesis using g found(1) k by auto
    qed
  next
    case none
    from get_num_passages_not_found[OF none, of E] none well_shaped_kind[OF none(1)]
      nf[of "text_of p"]
    show ?thesis by auto
  next
    case bad
    from get_num_passages_bad_list[OF bad, of E] bad show ?thesis by auto
  next
    case other
    from get_num_passages_other[OF other(1,2), of E] other show ?thesis by auto
  qed
qed

theorem extractor_outcomes_witness:
  "get_num_passages cpython (JNum 20) = Inl ValueError
   \<and> get_num_passages cpython (JStr (ascii ''I will provide you with passages'')) = Inl ValueError
   \<and> get_num_passages cpython (JStr (phrase (replicate 4301 49))) = Inl ValueError
   \<and> (\<exists>n. get_num_passages cpython (JStr (ascii ''I will provide you with 20 passages'')) = Inr n)"
proof -
  have a: "\<not> is_str (JNum 20) \<and> \<not> is_list (JNum 20)" by code_simp
  have b: "well_shaped (JStr (ascii ''I will provide you with passages''))" by code_simp
  have c: "re_search (text_of (JStr (ascii ''I will provide you with passages''))) = None"
    by code_simp
  have d: "well_shaped (JStr (ascii ''I will provide you with 20 passages''))" by code_simp
  have e: "phrase_at (text_of (JStr (ascii ''I will provide you with 20 passages''))) 0
      (ascii ''20'')" by code_simp
  then have f: "first_phrase_at (text_of (JStr (ascii ''I will provide you with 20 passages''))) 0
      (ascii ''20'')" by (simp add: first_phrase_at_def)
  have l: "within_limit cpython (ascii ''20'')" by code_simp
  from c have g: "\<not> has_phrase (text_of (JStr (ascii ''I will provide you with passages'')))"
    by (simp add: has_phrase_search)
  have w: "well_shaped (JStr (phrase (replicate 4301 49)))" by (simp add: well_shaped_def)
  have "first_phrase_at (phrase (replicate 4301 49)) 0 (replicate 4301 49)"
    by (rule phrase_at_self) (simp add: ones_token)
  then have o: "first_phrase_at (text_of (JStr (phrase (replicate 4301 49)))) 0
      (replicate 4301 49)" by (simp add: text_of_def)
  from extractor_outcomes[of cpython "JNum 20"] a
  have 1: "get_num_passages cpython (JNum 20) = Inl ValueError" by blast
  from extractor_outcomes[of cpython "JStr (ascii ''I will provide you with passages'')"] b g
  have 2: "get_num_passages cpython (JStr (ascii ''I will provide you with passages''))
      = Inl ValueError" by blast
  from extractor_outcomes[of cpython "JStr (phrase (replicate 4301 49))"] w o ones_over_limit
  have 3: "get_num_passages cpython (JStr (phrase (replicate 4301 49))) = Inl ValueError"
    by blast
  from extractor_outcomes[of cpython "JStr (ascii ''I will provide you with 20 passages'')"]
    d f l
  have 4: "\<exists>n. get_num_passages cpython (JStr (ascii ''I will provide you with 20 passages''))
      = Inr n" by blast
  show ?thesis by (intro conjI) (rule 1, rule 2, rule 3, rule 4)
qed

subsection \<open>The loop and the report\<close>

lemma bump_stats:
  "AList.map_entry (key_of oc) (\<lambda>n. n + 1)
     [(''ok'', a :: nat), (''wrong_format'', b), (''repetition'', c), (''missing_documents'', d)] =
   [(''ok'', a + (if oc = Ok then 1 else 0)),
    (''wrong_format'', b + (if oc = WrongFormat then 1 else 0)),
    (''repetition'', c + (if oc = Repetition then 1 else 0)),
    (''missing_documents'', d + (if oc = MissingDocuments then 1 else 0))]"
  by (cases oc) simp_all

lemma tally_Nil: "tally E [] oc = 0"
  by (simp add: tally_def)

lemma tally_Cons:
  "tally E ((r, k) # ps) oc = (if outcome_of E r k = Inr oc then 1 else 0) + tally E ps oc"
  by (simp add: tally_def)

lemma count_loop_tally:
  "prints_ok E v \<Longrightarrow> list_all classifiable (map fst ps) \<Longrightarrow>
   snd (count_loop E v ps out
      [(''ok'', a), (''wrong_format'', b), (''repetition'', c), (''missing_documents'', d)]) =
   Inr [(''ok'', a + tally E ps Ok), (''wrong_format'', b + tally E ps WrongFormat),
        (''repetition'', c + tally E ps Repetition),
        (''missing_documents'', d + tally E ps MissingDocuments)]"
proof (induction ps arbitrary: out a b c d)
  case Nil
  show ?case by (simp add: tally_Nil)
next
  case (Cons p ps)
  obtain r k where p: "p = (r, k)" by (cases p)
  from Cons.prems p have cl: "classifiable r" and rest: "list_all classifiable (map fst ps)"
    by simp_all
  from classifiable_outcome[OF cl, of E k] obtain oc where oc: "outcome_of E r k = Inr oc" ..
  from classify_prints_ok[OF Cons.prems(1) oc, of out] obtain out'
    where ls: "classify E v out r k = Inr (out', oc)" ..
  show ?case
    unfolding p
    by (simp only: count_loop.simps ls sum.case prod.case bump_stats
          Cons.IH[OF Cons.prems(1) rest] tally_Cons oc)
       (cases oc; simp)
qed

lemma count_loop_error:
  "prints_ok E v \<Longrightarrow> \<not> list_all classifiable (map fst ps) \<Longrightarrow>
   snd (count_loop E v ps out d) = Inl IndexError"
proof (induction ps arbitrary: out d)
  case Nil
  then show ?case by simp
next
  case (Cons p ps)
  obtain r k where p: "p = (r, k)" by (cases p)
  show ?case
  proof (cases "classifiable r")
    case False
    then have "outcome_of E r k = Inl IndexError"
      by (simp add: classifiable_def outcome_of_no_digit)
    from classify_error[OF this, of v out] show ?thesis unfolding p by simp
  next
    case True
    with Cons.prems p have rest: "\<not> list_all classifiable (map fst ps)" by simp
    from classifiable_outcome[OF True, of E k] obtain oc where oc: "outcome_of E r k = Inr oc" ..
    from classify_prints_ok[OF Cons.prems(1) oc, of out] obtain out'
      where ls: "classify E v out r k = Inr (out', oc)" ..
    show ?thesis unfolding p by (simp add: ls Cons.IH[OF Cons.prems(1) rest])
  qed
qed

lemma normalized_stats_four:
  "0 < n \<Longrightarrow>
   normalized_stats
     [(''ok'', a), (''wrong_format'', b), (''repetition'', c), (''missing_documents'', d)] n =
   Inr [(''ok'', percent a n), (''wrong_format'', percent b n), (''repetition'', percent c n),
        (''missing_documents'', percent d n)]"
  by simp

lemma count_errors_report:
  assumes "responses \<noteq> []" and "prints_ok E verbose"
    and "list_all classifiable (map fst (zip responses num_passages))"
  shows "snd (count_errors E responses num_passages verbose) =
    Inr (report_of E (zip responses num_passages) (length responses))"
proof -
  obtain out res
    where l: "count_loop E verbose (zip responses num_passages) [] stats_dict = (out, res)"
    by (cases "count_loop E verbose (zip responses num_passages) [] stats_dict")
  from count_loop_tally[OF assms(2,3), of "[]" 0 0 0 0] l
  have res: "res = Inr [(''ok'', tally E (zip responses num_passages) Ok),
      (''wrong_format'', tally E (zip responses num_passages) WrongFormat),
      (''repetition'', tally E (zip responses num_passages) Repetition),
      (''missing_documents'', tally E (zip responses num_passages) MissingDocuments)]"
    by (simp add: stats_dict_def)
  from assms(1) have n: "0 < length responses" by simp
  show ?thesis
    unfolding count_errors_def l res
    by (simp only: prod.case sum.case snd_conv normalized_stats_four[OF n] report_of_def
        list.map key_of.simps)
qed

lemma count_errors_unclassifiable:
  assumes "prints_ok E verbose"
    and "\<not> list_all classifiable (map fst (zip responses num_passages))"
  shows "snd (count_errors E responses num_passages verbose) = Inl IndexError"
proof -
  obtain out res
    where l: "count_loop E verbose (zip responses num_passages) [] stats_dict = (out, res)"
    by (cases "count_loop E verbose (zip responses num_passages) [] stats_dict")
  from count_loop_error[OF assms, of "[]" stats_dict] l have "res = Inl IndexError" by simp
  then show ?thesis unfolding count_errors_def l by simp
qed


lemma keys_report_of:
  "map fst (report_of E ps n) = [''ok'', ''wrong_format'', ''repetition'', ''missing_documents'']"
  by (simp add: report_of_def)




subsection \<open>Two percentages\<close>



text \<open>
  A batch of as many expected counts as responses, not empty, in which every response
  fails the character check or holds a digit, with no print that fails:
  \<^verbatim>\<open>count_errors\<close> returns the report of the specification, with the four keys in the
  order of insertion. Every other batch of equal lengths ends in \<^verbatim>\<open>IndexError\<close>.
\<close>

lemma classifiable_batch_report:
  assumes "responses \<noteq> []" and "length num_passages = length responses"
    and "list_all classifiable responses" and "prints_ok E verbose"
  shows "snd (count_errors E responses num_passages verbose) =
           Inr (report_of E (zip responses num_passages) (length responses))
     \<and> map fst (report_of E (zip responses num_passages) (length responses)) =
           [''ok'', ''wrong_format'', ''repetition'', ''missing_documents'']"
proof -
  from assms(2) have m: "map fst (zip responses num_passages) = responses" by simp
  with assms(3) have c: "list_all classifiable (map fst (zip responses num_passages))" by simp
  from count_errors_report[OF assms(1) assms(4) c] show ?thesis
    by (simp add: keys_report_of)
qed

subsection \<open>C5: the report of a non-empty batch\<close>

text \<open>
  C5 says that for every non-empty batch \<^verbatim>\<open>count_errors\<close> returns a report with the four
  keys, each value the rounded percentage of its count, the values summing to 100 up to
  0.02. The code returns no report for a batch that holds a response without a digit that
  passes the character check: on the responses \<^verbatim>\<open>[1] > [2]\<close> and \<^verbatim>\<open>[] > []\<close>, each with
  the expected count 2, it leaves with \<^verbatim>\<open>IndexError\<close>, under every setting of the
  interpreter.
\<close>

theorem report_missing_for_batch:
  "count_errors E [ascii ''[1] > [2]'', ascii ''[] > []''] [2, 2] False = ([], Inl IndexError)"
proof -
  have v: "validate_format (ascii ''[1] > [2]'')" by code_simp
  have tr: "trimmed (ascii ''[1] > [2]'') = Inr (ascii ''1] > [2'')" by code_simp
  have sp: "split (ascii ''1] > [2'') (ascii ''] > ['') = [[49], [50]]" by code_simp
  have d: "isdecimal 49" "isdecimal 50" "decimal_value [49] = 1" "decimal_value [50] = 2"
    by code_simp+
  have "parse_ranks E (split (ascii ''1] > [2'') (ascii ''] > ['')) = Inr [1, 2]"
    by (simp add: sp d py_int_digit)
  from outcome_of_parsed[OF v tr this, of 2]
  have "outcome_of E (ascii ''[1] > [2]'') 2 = Inr Ok" by simp
  then have 1: "classify E False [] (ascii ''[1] > [2]'') 2 = Inr ([], Ok)"
    by (simp add: classify_quiet)
  have v2: "validate_format (ascii ''[] > []'')" by code_simp
  have h2: "\<not> has_digit (ascii ''[] > []'')" by code_simp
  from outcome_of_no_digit[OF v2 h2]
  have 2: "classify E False [] (ascii ''[] > []'') 2 = Inl IndexError"
    by (rule classify_error)
  show ?thesis by (simp add: count_errors_def 1 2)
qed

subsection \<open>C10: fewer expected counts than responses\<close>




subsection \<open>The rounding to binary64\<close>

lemma round_half_even_near: "\<bar>of_int (round_half_even x) - x\<bar> \<le> 1 / 2"
proof -
  have "of_int \<lfloor>x\<rfloor> \<le> x" "x < of_int \<lfloor>x\<rfloor> + 1" by linarith+
  then show ?thesis by (auto simp: round_half_even_def Let_def)
qed

lemma bitlen_pos: "0 < n \<Longrightarrow> 0 < bitlen n"
proof (rule ccontr)
  assume n: "0 < n" and "\<not> 0 < bitlen n"
  then have "nat (bitlen n) = 0" by simp
  with bitlen_bounds[OF n] show False by auto
qed

text \<open>\<open>ilog2\<close> gives the position of the leading bit.\<close>

lemma ilog2_bounds:
  assumes "0 < x"
  shows "2 powi ilog2 x \<le> x \<and> x < 2 powi (ilog2 x + 1)"
proof (cases "1 \<le> x")
  case True
  let ?n = "\<lfloor>x\<rfloor>"
  from True have n: "0 < ?n" by linarith
  from bitlen_bounds[OF n] have b: "2 ^ nat (bitlen ?n - 1) \<le> ?n" "?n < 2 ^ nat (bitlen ?n)"
    by simp_all
  from n have bp: "0 < bitlen ?n" by (rule bitlen_pos)
  from b(1) have "rat_of_int (2 ^ nat (bitlen ?n - 1)) \<le> x" by (simp only: le_floor_iff)
  then have lo: "(2::rat) ^ nat (bitlen ?n - 1) \<le> x" by simp
  from b(2) have "x < rat_of_int (2 ^ nat (bitlen ?n))" by (simp only: floor_less_iff)
  then have hi: "x < (2::rat) ^ nat (bitlen ?n)" by simp
  from bp have e1: "(2::rat) powi (bitlen ?n - 1) = 2 ^ nat (bitlen ?n - 1)"
    by (simp add: power_int_def)
  from bp have e2: "(2::rat) powi (bitlen ?n - 1 + 1) = 2 ^ nat (bitlen ?n)"
    by (simp add: power_int_def)
  from True lo hi show ?thesis by (simp only: ilog2_def if_True e1 e2)
next
  case False
  let ?m = "\<lceil>1 / x\<rceil> - 1"
  from False assms have y: "1 < 1 / x" by (simp add: field_simps)
  then have m: "0 < ?m" by linarith
  from bitlen_bounds[OF m] have b: "2 ^ nat (bitlen ?m - 1) \<le> ?m" "?m < 2 ^ nat (bitlen ?m)"
    by simp_all
  from m have bp: "0 < bitlen ?m" by (rule bitlen_pos)
  from b(1) have "2 ^ nat (bitlen ?m - 1) < \<lceil>1 / x\<rceil>" by simp
  then have "rat_of_int (2 ^ nat (bitlen ?m - 1)) < 1 / x" by (simp only: less_ceiling_iff)
  then have lo: "(2::rat) ^ nat (bitlen ?m - 1) < 1 / x" by simp
  from b(2) have "\<lceil>1 / x\<rceil> \<le> 2 ^ nat (bitlen ?m)" by simp
  then have "1 / x \<le> rat_of_int (2 ^ nat (bitlen ?m))" by (simp only: ceiling_le_iff)
  then have hi: "1 / x \<le> (2::rat) ^ nat (bitlen ?m)" by simp
  have p: "0 < (2::rat) ^ k" for k by simp
  from hi assms p[of "nat (bitlen ?m)"] have hi': "1 / 2 ^ nat (bitlen ?m) \<le> x"
    by (simp add: field_simps)
  from lo assms p[of "nat (bitlen ?m - 1)"] have lo': "x < 1 / 2 ^ nat (bitlen ?m - 1)"
    by (simp add: field_simps)
  from bp have e1: "(2::rat) powi (- bitlen ?m) = 1 / 2 ^ nat (bitlen ?m)"
    by (simp add: power_int_def field_simps)
  from bp have e2: "(2::rat) powi (- bitlen ?m + 1) = 1 / 2 ^ nat (bitlen ?m - 1)"
    by (cases "bitlen ?m = 1") (simp_all add: power_int_def field_simps nat_diff_distrib)
  from False hi' lo' show ?thesis by (simp only: ilog2_def if_False e1 e2)
qed

text \<open>The rounding moves a number by at most half a unit of its last place.\<close>

lemma fl_near:
  "\<bar>fl x - x\<bar> \<le> 2 powi (max (ilog2 \<bar>x\<bar> - 52) (- 1074)) / 2"
proof (cases "x = 0")
  case True
  then show ?thesis by (simp add: fl_def)
next
  case False
  let ?e = "max (ilog2 \<bar>x\<bar> - 52) (- 1074)"
  have p: "0 < (2::rat) powi ?e" by simp
  have "\<bar>fl x - x\<bar> = \<bar>of_int (round_half_even (x / 2 powi ?e)) - x / 2 powi ?e\<bar> * 2 powi ?e"
  proof -
    have "fl x - x = (of_int (round_half_even (x / 2 powi ?e)) - x / 2 powi ?e) * 2 powi ?e"
      using False p by (simp add: fl_def Let_def field_simps)
    then show ?thesis using p by (simp add: abs_mult)
  qed
  also have "\<dots> \<le> 1 / 2 * 2 powi ?e"
    using round_half_even_near[of "x / 2 powi ?e"] p by (intro mult_right_mono) simp_all
  finally show ?thesis by simp
qed

end
